theory Spec2Isabelle
  imports Complex_Main "HOL-Library.Sublist"
begin

section \<open>Values and errors\<close>

text \<open>
  The raw records are what \<^verbatim>\<open>res.json()\<close> returns: nested Python values built from
  \<^verbatim>\<open>None\<close>, booleans, numbers, strings, lists and dictionaries with string keys.
  A dictionary is an association list read with \<open>map_of\<close>. A Python \<^verbatim>\<open>str\<close> is a
  \<open>string\<close>, one \<open>char\<close> per code point below 256; among these the class
  \<^verbatim>\<open>\d\<close> of the \<^verbatim>\<open>re\<close> module is exactly \<^verbatim>\<open>0\<close> to \<^verbatim>\<open>9\<close>. Python integers are
  unbounded (the optional limit on the length of decimal literals is not modelled).
\<close>

datatype json =
    JNull
  | JBool bool
  | JInt int
  | JFloat rat
  | JStr string
  | JArr "json list"
  | JObj "(string \<times> json) list"

datatype error =
    KeyError
  | IndexError
  | TypeError
  | ValueError
  | AttributeError
  | UnboundLocalError
  | ValidationError

text \<open>A \<^verbatim>\<open>datetime\<close> with \<^verbatim>\<open>tz=utc\<close> is the instant it denotes, in seconds since the
  Unix epoch.\<close>

type_synonym datetime = rat

section \<open>Python primitives used by the helpers\<close>

text \<open>\<^verbatim>\<open>x[key]\<close> for a string key: only a dictionary holding the key answers; a missing key
  raises \<^verbatim>\<open>KeyError\<close>, any other value \<^verbatim>\<open>TypeError\<close>.\<close>

fun getitem :: "json \<Rightarrow> string \<Rightarrow> error + json" where
  "getitem (JObj kvs) k = (case map_of kvs k of None \<Rightarrow> Inl KeyError | Some v \<Rightarrow> Inr v)"
| "getitem _ k = Inl TypeError"

text \<open>A chain \<^verbatim>\<open>d[k1][k2]...\<close>, evaluated left to right.\<close>

fun getpath :: "json \<Rightarrow> string list \<Rightarrow> error + json" where
  "getpath d [] = Inr d"
| "getpath d (k # ks) = (case getitem d k of Inl e \<Rightarrow> Inl e | Inr v \<Rightarrow> getpath v ks)"

text \<open>\<^verbatim>\<open>x[0]\<close>: the first element of a list, the first character of a string; a dictionary
  has string keys only, so the key \<^verbatim>\<open>0\<close> is missing.\<close>

fun getitem0 :: "json \<Rightarrow> error + json" where
  "getitem0 (JArr (x # xs)) = Inr x"
| "getitem0 (JArr []) = Inl IndexError"
| "getitem0 (JStr (c # cs)) = Inr (JStr [c])"
| "getitem0 (JStr []) = Inl IndexError"
| "getitem0 (JObj kvs) = Inl KeyError"
| "getitem0 _ = Inl TypeError"

text \<open>\<^verbatim>\<open>needle in x\<close> for a string needle: substring of a string, element of a list, key of a
  dictionary; \<^verbatim>\<open>TypeError\<close> on anything else.\<close>

fun py_in :: "string \<Rightarrow> json \<Rightarrow> error + bool" where
  "py_in needle (JStr s) = Inr (sublist needle s)"
| "py_in needle (JArr xs) = Inr (JStr needle \<in> set xs)"
| "py_in needle (JObj kvs) = Inr (needle \<in> fst ` set kvs)"
| "py_in needle _ = Inl TypeError"

text \<open>The values a \<^verbatim>\<open>for\<close> loop over \<^verbatim>\<open>x\<close> visits: elements, characters or keys.\<close>

fun py_iter :: "json \<Rightarrow> error + json list" where
  "py_iter (JArr xs) = Inr xs"
| "py_iter (JStr s) = Inr (map (\<lambda>c. JStr [c]) s)"
| "py_iter (JObj kvs) = Inr (map (\<lambda>kv. JStr (fst kv)) kvs)"
| "py_iter _ = Inl TypeError"

definition is_digit :: "char \<Rightarrow> bool" where
  "is_digit c = (c \<in> set ''0123456789'')"

definition digit_val :: "char \<Rightarrow> nat" where
  "digit_val c = of_char c - 48"

definition digits_value :: "nat \<Rightarrow> string \<Rightarrow> nat" where
  "digits_value b s = foldl (\<lambda>n c. b * n + digit_val c) 0 s"

text \<open>\<^verbatim>\<open>int(s)\<close> on a string of decimal digits. (Signs, blanks and underscores, which
  \<^verbatim>\<open>int\<close> also reads, do not occur in a match of \<^verbatim>\<open>\d+\<close>; here they are a
  \<^verbatim>\<open>ValueError\<close>.)\<close>

definition py_int :: "string \<Rightarrow> error + nat" where
  "py_int s = (if s \<noteq> [] \<and> list_all is_digit s then Inr (digits_value 10 s) else Inl ValueError)"

text \<open>\<^verbatim>\<open>bin(n)\<close> for \<open>n \<ge> 0\<close>: \<^verbatim>\<open>0b\<close> and the binary digits, most significant first, without
  padding.\<close>

fun bin_digits :: "nat \<Rightarrow> string" where
  "bin_digits n =
     (if n < 2 then [if n = 0 then CHR ''0'' else CHR ''1'']
      else bin_digits (n div 2) @ [if n mod 2 = 0 then CHR ''0'' else CHR ''1''])"

declare bin_digits.simps [simp del]

definition py_bin :: "nat \<Rightarrow> string" where
  "py_bin n = ''0b'' @ bin_digits n"

text \<open>\<^verbatim>\<open>int(s, 2)\<close> on an optional \<^verbatim>\<open>0b\<close> followed by binary digits.\<close>

definition py_int2 :: "string \<Rightarrow> error + nat" where
  "py_int2 s =
     (let ds = (if prefix ''0b'' s then drop 2 s else s)
      in if ds \<noteq> [] \<and> list_all (\<lambda>c. c \<in> set ''01'') ds then Inr (digits_value 2 ds)
         else Inl ValueError)"

text \<open>\<^verbatim>\<open>s.split(sep)\<close> for a one-character separator: the fields between the
  separators, \<open>w\<close> being the field read so far.\<close>

fun split_from :: "char \<Rightarrow> string \<Rightarrow> string \<Rightarrow> string list" where
  "split_from sep w [] = [w]"
| "split_from sep w (c # s) =
     (if c = sep then w # split_from sep [] s else split_from sep (w @ [c]) s)"

definition split_on :: "char \<Rightarrow> string \<Rightarrow> string list" where
  "split_on sep s = split_from sep [] s"

text \<open>\<^verbatim>\<open>datetime.fromtimestamp(t, tz=utc)\<close>: the instant \<open>t\<close>, when its year lies in 1 to 9999.\<close>

definition fromtimestamp_utc :: "rat \<Rightarrow> error + datetime" where
  "fromtimestamp_utc t =
     (if - 62135596800 \<le> t \<and> t < 253402300800 then Inr t else Inl ValueError)"

section \<open>The identifier decoder\<close>

definition urn_activity_prefix :: string where
  "urn_activity_prefix = ''urn:li:activity:''"

text \<open>The pattern \<^verbatim>\<open>(urn:li:activity:\d+)\<close> anchored at the start of \<open>s\<close>: the prefix and
  the longest run of digits after it, which must not be empty.\<close>

definition match_here :: "string \<Rightarrow> string option" where
  "match_here s =
     (let ds = takeWhile is_digit (drop (length urn_activity_prefix) s)
      in if prefix urn_activity_prefix s \<and> ds \<noteq> [] then Some (urn_activity_prefix @ ds)
         else None)"

text \<open>\<^verbatim>\<open>re.search\<close>: the match at the leftmost position that has one.\<close>

fun re_search :: "string \<Rightarrow> string option" where
  "re_search [] = match_here []"
| "re_search (c # s) =
     (case match_here (c # s) of Some m \<Rightarrow> Some m | None \<Rightarrow> re_search s)"

text \<open>
  \<^verbatim>\<open>get_timestamp_from_entity_urn\<close>. \<^verbatim>\<open>re.search\<close> raises \<^verbatim>\<open>TypeError\<close> on a value that
  is not a string and returns \<^verbatim>\<open>None\<close> when nothing matches, on which \<^verbatim>\<open>.group()\<close>
  raises \<^verbatim>\<open>AttributeError\<close>. The quotient \<^verbatim>\<open>int(first_41, 2) / 1000\<close> is a float within
  \<open>2 ^ 41 / 1000\<close>, off the exact quotient by less than a quarter of a microsecond, and
  \<^verbatim>\<open>fromtimestamp\<close> rounds to the microsecond: the instant is the exact quotient.
\<close>

definition get_timestamp_from_entity_urn :: "json \<Rightarrow> error + datetime" where
  "get_timestamp_from_entity_urn entity_urn =
     (case entity_urn of
        JStr s \<Rightarrow>
          (case re_search s of
             None \<Rightarrow> Inl AttributeError
           | Some urn_activity \<Rightarrow>
               (case py_int (last (split_on CHR '':'' urn_activity)) of
                  Inl e \<Rightarrow> Inl e
                | Inr post_id \<Rightarrow>
                    (case py_int2 (take 43 (py_bin post_id)) of
                       Inl e \<Rightarrow> Inl e
                     | Inr first_41 \<Rightarrow> fromtimestamp_utc (of_nat first_41 / 1000))))
      | _ \<Rightarrow> Inl TypeError)"

section \<open>The activity extractor\<close>

text \<open>\<^verbatim>\<open>model.LinkedinActivity\<close>; \<^verbatim>\<open>comment_timestamp\<close> is no field of the class, and the
  keyword argument of that name is dropped by the constructor.\<close>

record LinkedinActivity =
  actor_urn :: string
  actor_type :: string
  actor_name :: string
  dash_entity_urn :: string
  entity_urn :: string
  url :: string
  caption :: string
  post_urn :: string
  is_shared :: bool
  shared_caption :: string
  is_reposted :: bool
  is_liked :: bool
  is_commented :: bool
  comment :: string
  timestamp :: datetime

text \<open>
  A field declared \<^verbatim>\<open>str\<close> keeps a string as it is. What the validation does with any
  other value depends on the version of the library (reject it, or turn a number into its
  text), so that part is the parameter \<open>coerce\<close>, where \<open>None\<close> is a rejection.
\<close>

definition str_field :: "(json \<Rightarrow> string option) \<Rightarrow> json \<Rightarrow> string option" where
  "str_field coerce v = (case v of JStr s \<Rightarrow> Some s | _ \<Rightarrow> coerce v)"

text \<open>The two local variables of \<^verbatim>\<open>elements_to_linkedin_activity\<close> that an iteration may
  leave unassigned: they keep the value of an earlier iteration, and are unbound (\<open>None\<close>)
  before the first assignment.\<close>

record locals =
  actor_type_var :: "string option"
  url_var :: "json option"

text \<open>Each \<^verbatim>\<open>try\<close> block of the loop body has a bare \<^verbatim>\<open>except\<close>, which catches every
  error of the block.\<close>

definition get_or_empty :: "json \<Rightarrow> string list \<Rightarrow> json" where
  "get_or_empty d path = (case getpath d path of Inl e \<Rightarrow> JStr [] | Inr v \<Rightarrow> v)"

definition actor_step :: "json \<Rightarrow> string option \<Rightarrow> json \<times> string option" where
  "actor_step d actor_type_0 =
     (case getpath d [''actor'', ''urn''] of
        Inl e \<Rightarrow> (JStr [], actor_type_0)
      | Inr u \<Rightarrow>
          (case py_in ''company'' u of
             Inl e \<Rightarrow> (JStr [], actor_type_0)
           | Inr c \<Rightarrow>
               if c then (u, Some ''company'')
               else (case py_in ''member'' u of
                       Inl e \<Rightarrow> (JStr [], actor_type_0)
                     | Inr m \<Rightarrow> if m then (u, Some ''member'') else (u, actor_type_0))))"

fun scan_actions :: "json list \<Rightarrow> json option \<Rightarrow> error + json option" where
  "scan_actions [] url_0 = Inr url_0"
| "scan_actions (a # as) url_0 =
     (case getitem a ''actionType'' of
        Inl e \<Rightarrow> Inl e
      | Inr t \<Rightarrow>
          if t = JStr ''SHARE_VIA''
          then (case getitem a ''url'' of Inl e \<Rightarrow> Inl e | Inr u \<Rightarrow> Inr (Some u))
          else scan_actions as url_0)"

definition url_step :: "json \<Rightarrow> json option \<Rightarrow> json option" where
  "url_step d url_0 =
     (case getpath d [''updateMetadata'', ''updateActions'', ''actions''] of
        Inl e \<Rightarrow> Some (JStr [])
      | Inr actions \<Rightarrow>
          (case py_iter actions of
             Inl e \<Rightarrow> Some (JStr [])
           | Inr as \<Rightarrow>
               (case scan_actions as url_0 of Inl e \<Rightarrow> Some (JStr []) | Inr u \<Rightarrow> u)))"

definition shared_step :: "json \<Rightarrow> json \<times> bool" where
  "shared_step d =
     (case getpath d [''resharedUpdate'', ''commentary'', ''text'', ''text''] of
        Inl e \<Rightarrow> (JStr [], False)
      | Inr v \<Rightarrow> (v, True))"

text \<open>The header classification: the flags \<open>(is_reposted, is_commented, is_liked)\<close>.\<close>

definition header_step :: "json \<Rightarrow> bool \<times> bool \<times> bool" where
  "header_step d =
     (case getpath d [''header'', ''text'', ''text''] of
        Inl e \<Rightarrow> (False, False, False)
      | Inr header_text \<Rightarrow>
          (case py_in ''reposted this'' header_text of
             Inl e \<Rightarrow> (False, False, False)
           | Inr r \<Rightarrow>
               if r then (True, False, False)
               else (case py_in ''commented on this'' header_text of
                       Inl e \<Rightarrow> (False, False, False)
                     | Inr c \<Rightarrow> if c then (False, True, False) else (False, False, True))))"

text \<open>\<^verbatim>\<open>datetime.fromtimestamp(x, tz=utc)\<close> on a value of the record: a number or a boolean
  is a timestamp, anything else a \<^verbatim>\<open>TypeError\<close>.\<close>

fun fromtimestamp_json :: "json \<Rightarrow> error + datetime" where
  "fromtimestamp_json (JInt t) = fromtimestamp_utc (of_int t)"
| "fromtimestamp_json (JFloat r) = fromtimestamp_utc r"
| "fromtimestamp_json (JBool b) = fromtimestamp_utc (if b then 1 else 0)"
| "fromtimestamp_json _ = Inl TypeError"

definition comment_step :: "json \<Rightarrow> json" where
  "comment_step d =
     (case getitem d ''highlightedComments'' of
        Inl e \<Rightarrow> JStr []
      | Inr hs \<Rightarrow>
          (case getitem0 hs of
             Inl e \<Rightarrow> JStr []
           | Inr highlighted_comment_data \<Rightarrow>
               (case getpath highlighted_comment_data [''commentV2'', ''text''] of
                  Inl e \<Rightarrow> JStr []
                | Inr highlighted_comment \<Rightarrow>
                    (case getitem highlighted_comment_data ''createdTime'' of
                       Inl e \<Rightarrow> JStr []
                     | Inr t \<Rightarrow>
                         (case fromtimestamp_json t of
                            Inl e \<Rightarrow> JStr []
                          | Inr dt \<Rightarrow> highlighted_comment)))))"

text \<open>The constructor call: the nine values for the \<^verbatim>\<open>str\<close> fields are validated, the flags
  and the timestamp have their declared types already.\<close>

definition new_activity ::
  "(json \<Rightarrow> string option) \<Rightarrow> json list \<Rightarrow> string \<Rightarrow> bool \<Rightarrow> bool \<Rightarrow> bool \<Rightarrow> bool \<Rightarrow> datetime
     \<Rightarrow> error + LinkedinActivity" where
  "new_activity coerce strs aty sh rp lk cm ts =
     (case those (map (str_field coerce) strs) of
        Some [au, an, de, eu, u, cap, pu, sc, com] \<Rightarrow>
          Inr \<lparr>actor_urn = au, actor_type = aty, actor_name = an, dash_entity_urn = de,
               entity_urn = eu, url = u, caption = cap, post_urn = pu, is_shared = sh,
               shared_caption = sc, is_reposted = rp, is_liked = lk, is_commented = cm,
               comment = com, timestamp = ts\<rparr>
      | _ \<Rightarrow> Inl ValidationError)"

text \<open>
  One iteration of the loop of \<^verbatim>\<open>elements_to_linkedin_activity\<close>. The keyword arguments
  of the constructor call are evaluated in the order written: reading an unbound
  \<^verbatim>\<open>actor_type\<close> or \<^verbatim>\<open>url\<close> raises \<^verbatim>\<open>UnboundLocalError\<close> before the decoder is called,
  and the decoder is called before the constructor validates.
\<close>

definition activity_of_record ::
  "(json \<Rightarrow> string option) \<Rightarrow> json \<Rightarrow> locals \<Rightarrow> error + (LinkedinActivity \<times> locals)" where
  "activity_of_record coerce d st =
     (let (actor_urn_v, actor_type_v) = actor_step d (actor_type_var st);
          actor_name_v = get_or_empty d [''actor'', ''name'', ''text''];
          dash_entity_urn_v = get_or_empty d [''dashEntityUrn''];
          entity_urn_v = get_or_empty d [''entityUrn''];
          url_v = url_step d (url_var st);
          (shared_caption_v, is_shared_v) = shared_step d;
          (is_reposted_v, is_commented_v, is_liked_v) =
             (if \<not> is_shared_v then header_step d else (False, False, False));
          comment_v = (if is_commented_v then comment_step d else JStr []);
          caption_v = get_or_empty d [''commentary'', ''text'', ''text''];
          post_urn_v = get_or_empty d [''updateMetadata'', ''urn'']
      in case actor_type_v of
           None \<Rightarrow> Inl UnboundLocalError
         | Some aty \<Rightarrow>
             (case url_v of
                None \<Rightarrow> Inl UnboundLocalError
              | Some u \<Rightarrow>
                  (case get_timestamp_from_entity_urn entity_urn_v of
                     Inl e \<Rightarrow> Inl e
                   | Inr ts \<Rightarrow>
                       (case new_activity coerce
                               [actor_urn_v, actor_name_v, dash_entity_urn_v, entity_urn_v, u,
                                caption_v, post_urn_v, shared_caption_v, comment_v]
                               aty is_shared_v is_reposted_v is_liked_v is_commented_v ts of
                          Inl e \<Rightarrow> Inl e
                        | Inr a \<Rightarrow>
                            Inr (a, \<lparr>actor_type_var = actor_type_v, url_var = url_v\<rparr>)))))"

fun activities_loop ::
  "(json \<Rightarrow> string option) \<Rightarrow> json list \<Rightarrow> locals \<Rightarrow> LinkedinActivity list
     \<Rightarrow> error + LinkedinActivity list" where
  "activities_loop coerce [] st activities_list = Inr activities_list"
| "activities_loop coerce (d # data) st activities_list =
     (case activity_of_record coerce d st of
        Inl e \<Rightarrow> Inl e
      | Inr (a, st') \<Rightarrow> activities_loop coerce data st' (activities_list @ [a]))"

definition elements_to_linkedin_activity ::
  "(json \<Rightarrow> string option) \<Rightarrow> json list \<Rightarrow> error + LinkedinActivity list" where
  "elements_to_linkedin_activity coerce data =
     activities_loop coerce data \<lparr>actor_type_var = None, url_var = None\<rparr> []"

text \<open>The validation that rejects every value that is not a string.\<close>

definition strict :: "json \<Rightarrow> string option" where
  "strict v = None"

section \<open>The feed assembler\<close>

text \<open>A post is a dictionary of its fields; \<^verbatim>\<open>d.get(k)\<close> is \<^verbatim>\<open>None\<close> for a missing key.\<close>

type_synonym post = "(string \<times> json) list"

definition dict_get :: "post \<Rightarrow> string \<Rightarrow> json" where
  "dict_get d k = (case map_of d k of None \<Rightarrow> JNull | Some v \<Rightarrow> v)"

text \<open>A list comprehension \<^verbatim>\<open>[d for d in xs if keep(d)]\<close> whose condition may raise.\<close>

fun filter_err :: "('a \<Rightarrow> error + bool) \<Rightarrow> 'a list \<Rightarrow> error + 'a list" where
  "filter_err keep [] = Inr []"
| "filter_err keep (x # xs) =
     (case keep x of
        Inl e \<Rightarrow> Inl e
      | Inr b \<Rightarrow>
          (case filter_err keep xs of
             Inl e \<Rightarrow> Inl e
           | Inr ys \<Rightarrow> Inr (if b then x # ys else ys)))"

definition not_in_field :: "string \<Rightarrow> string \<Rightarrow> post \<Rightarrow> error + bool" where
  "not_in_field needle k d =
     (case py_in needle (dict_get d k) of Inl e \<Rightarrow> Inl e | Inr b \<Rightarrow> Inr (\<not> b))"

text \<open>The inner loop: the first post whose \<^verbatim>\<open>post["url"]\<close> contains the URN.\<close>

fun find_post :: "string \<Rightarrow> post list \<Rightarrow> error + post option" where
  "find_post urn [] = Inr None"
| "find_post urn (p # ps) =
     (case getitem (JObj p) ''url'' of
        Inl e \<Rightarrow> Inl e
      | Inr u \<Rightarrow>
          (case py_in urn u of
             Inl e \<Rightarrow> Inl e
           | Inr b \<Rightarrow> if b then Inr (Some p) else find_post urn ps))"

fun sort_loop :: "string list \<Rightarrow> post list \<Rightarrow> post list \<Rightarrow> error + post list" where
  "sort_loop [] l_posts out = Inr out"
| "sort_loop (urn # l_urns) l_posts out =
     (case find_post urn l_posts of
        Inl e \<Rightarrow> Inl e
      | Inr None \<Rightarrow> sort_loop l_urns l_posts out
      | Inr (Some p) \<Rightarrow>
          (case filter_err (not_in_field urn ''url'') l_posts of
             Inl e \<Rightarrow> Inl e
           | Inr l_posts' \<Rightarrow> sort_loop l_urns l_posts' (out @ [p])))"

text \<open>\<^verbatim>\<open>get_list_posts_sorted_without_promoted\<close>: the list it returns (it also leaves the
  caller's \<^verbatim>\<open>l_posts\<close> shortened).\<close>

definition get_list_posts_sorted_without_promoted ::
  "string list \<Rightarrow> post list \<Rightarrow> error + post list" where
  "get_list_posts_sorted_without_promoted l_urns l_posts =
     (case filter_err (not_in_field ''Promoted'' ''old'') l_posts of
        Inl e \<Rightarrow> Inl e
      | Inr l_posts' \<Rightarrow> sort_loop l_urns l_posts' [])"

text \<open>A post with a relative age and a URL, both strings; and a post whose URL contains a
  URN.\<close>

definition well_formed_post :: "post \<Rightarrow> bool" where
  "well_formed_post p =
     ((\<exists>s. map_of p ''old'' = Some (JStr s)) \<and> (\<exists>s. map_of p ''url'' = Some (JStr s)))"

definition url_contains :: "string \<Rightarrow> post \<Rightarrow> bool" where
  "url_contains urn p = (\<exists>s. map_of p ''url'' = Some (JStr s) \<and> sublist urn s)"

section \<open>Sample records\<close>

text \<open>A record with an actor, an entity identifier and a share-via action, to which the
  optional parts are added.\<close>

definition base_fields :: "(string \<times> json) list" where
  "base_fields =
     [(''actor'', JObj [(''urn'', JStr ''urn:li:member:42''),
                        (''name'', JObj [(''text'', JStr ''Ann'')])]),
      (''entityUrn'', JStr ''urn:li:fs_updateV2:(urn:li:activity:7123456789012345678,FEED)''),
      (''updateMetadata'',
         JObj [(''urn'', JStr ''urn:li:activity:7123456789012345678''),
               (''updateActions'',
                  JObj [(''actions'',
                     JArr [JObj [(''actionType'', JStr ''SHARE_VIA''),
                                 (''url'', JStr ''https://example.org/p1'')]])])])]"

definition text_field :: "string \<Rightarrow> string \<Rightarrow> string \<times> json" where
  "text_field k s = (k, JObj [(''text'', JObj [(''text'', JStr s)])])"

definition reshared_field :: "string \<Rightarrow> string \<times> json" where
  "reshared_field s = (''resharedUpdate'', JObj [text_field ''commentary'' s])"

definition commented_activity :: LinkedinActivity where
  "commented_activity =
     \<lparr>actor_urn = ''urn:li:member:42'', actor_type = ''member'', actor_name = ''Ann'',
      dash_entity_urn = '''',
      entity_urn = ''urn:li:fs_updateV2:(urn:li:activity:7123456789012345678,FEED)'',
      url = ''https://example.org/p1'', caption = '''',
      post_urn = ''urn:li:activity:7123456789012345678'', is_shared = False,
      shared_caption = '''', is_reposted = False, is_liked = False,
      is_commented = True, comment = '''', timestamp = 1698364445927 / 1000\<rparr>"

definition plain_activity :: LinkedinActivity where
  "plain_activity = commented_activity\<lparr>is_commented := False\<rparr>"

definition bare_activity :: LinkedinActivity where
  "bare_activity =
     \<lparr>actor_urn = '''', actor_type = ''member'', actor_name = '''', dash_entity_urn = '''',
      entity_urn = ''urn:li:activity:123'', url = '''', caption = '''', post_urn = '''',
      is_shared = False, shared_caption = '''', is_reposted = False, is_liked = False,
      is_commented = False, comment = '''', timestamp = 123 / 1000\<rparr>"

text \<open>The number of classification flags that are set.\<close>

definition flag_count :: "LinkedinActivity \<Rightarrow> nat" where
  "flag_count a = length (filter id [is_shared a, is_reposted a, is_liked a, is_commented a])"

definition shared_activity :: LinkedinActivity where
  "shared_activity =
     \<lparr>actor_urn = ''urn:li:member:42'', actor_type = ''member'', actor_name = ''Ann'',
      dash_entity_urn = '''',
      entity_urn = ''urn:li:fs_updateV2:(urn:li:activity:7123456789012345678,FEED)'',
      url = ''https://example.org/p1'', caption = '''',
      post_urn = ''urn:li:activity:7123456789012345678'', is_shared = True,
      shared_caption = ''old post'', is_reposted = False, is_liked = False,
      is_commented = False, comment = '''', timestamp = 1698364445927 / 1000\<rparr>"

text \<open>A dictionary without one of its keys.\<close>

definition without_key :: "string \<Rightarrow> (string \<times> json) list \<Rightarrow> (string \<times> json) list" where
  "without_key k kvs = filter (\<lambda>kv. fst kv \<noteq> k) kvs"

text \<open>A string embeds an activity identifier when \<^verbatim>\<open>urn:li:activity:\<close> followed by a
  digit occurs in it.\<close>

definition embeds_activity_urn :: "string \<Rightarrow> bool" where
  "embeds_activity_urn s = list_ex (\<lambda>c. sublist (urn_activity_prefix @ [c]) s) ''0123456789''"

section \<open>Properties of the extractor\<close>

lemmas eval_defs = elements_to_linkedin_activity_def activity_of_record_def actor_step_def
  url_step_def shared_step_def header_step_def comment_step_def get_or_empty_def new_activity_def
  str_field_def strict_def base_fields_def text_field_def reshared_field_def
  get_timestamp_from_entity_urn_def match_here_def urn_activity_prefix_def is_digit_def
  py_int_def py_int2_def py_bin_def digits_value_def digit_val_def bin_digits.simps
  fromtimestamp_utc_def split_on_def sublist_code

lemma new_activity_Inr:
  assumes "new_activity coerce strs aty sh rp lk cm ts = Inr a"
  shows "is_shared a = sh" "is_reposted a = rp" "is_liked a = lk" "is_commented a = cm"
        "actor_type a = aty" "timestamp a = ts"
        "those (map (str_field coerce) strs) =
           Some [actor_urn a, actor_name a, dash_entity_urn a, entity_urn a, url a, caption a,
                 post_urn a, shared_caption a, comment a]"
  using assms by (auto simp: new_activity_def split: option.splits list.splits)

lemma activity_of_record_flags:
  assumes "activity_of_record coerce d st = Inr (a, st')"
  shows "is_shared a = snd (shared_step d)"
    and "(is_reposted a, is_commented a, is_liked a) =
           (if snd (shared_step d) then (False, False, False) else header_step d)"
  using assms
  by (auto simp: activity_of_record_def Let_def split: prod.splits option.splits sum.splits if_splits
           dest: new_activity_Inr)

lemma activities_loop_nth:
  "activities_loop coerce data st acc = Inr acts \<Longrightarrow>
     length acts = length acc + length data \<and>
     (\<forall>j<length acc. acts ! j = acc ! j) \<and>
     (\<forall>i<length data. \<exists>s s'. activity_of_record coerce (data ! i) s = Inr (acts ! (length acc + i), s'))"
proof (induction data arbitrary: st acc)
  case Nil
  then show ?case by simp
next
  case (Cons d data)
  from Cons.prems obtain a st' where
    step: "activity_of_record coerce d st = Inr (a, st')" and
    rest: "activities_loop coerce data st' (acc @ [a]) = Inr acts"
    by (auto split: sum.splits)
  from Cons.IH [OF rest] have
    len: "length acts = length (acc @ [a]) + length data" and
    old: "\<forall>j<length (acc @ [a]). acts ! j = (acc @ [a]) ! j" and
    new: "\<forall>i<length data. \<exists>s s'. activity_of_record coerce (data ! i) s =
            Inr (acts ! (length (acc @ [a]) + i), s')"
    by blast+
  have "acts ! length acc = a" using old by (simp add: nth_append)
  moreover have "\<forall>j<length acc. acts ! j = acc ! j"
    using old by (simp add: nth_append less_Suc_eq)
  ultimately show ?case
    using len new step
    by (auto simp: nth_Cons less_Suc_eq_0_disj split: nat.splits)
qed

lemma elements_nth:
  assumes "elements_to_linkedin_activity coerce data = Inr acts" and "i < length data"
  shows "i < length acts"
    and "\<exists>s s'. activity_of_record coerce (data ! i) s = Inr (acts ! i, s')"
  using activities_loop_nth [of coerce data _ "[]" acts] assms
  by (auto simp: elements_to_linkedin_activity_def)

lemma header_step_str:
  "getpath d [''header'', ''text'', ''text''] = Inr (JStr h) \<Longrightarrow>
     header_step d =
       (sublist ''reposted this'' h,
        \<not> sublist ''reposted this'' h \<and> sublist ''commented on this'' h,
        \<not> sublist ''reposted this'' h \<and> \<not> sublist ''commented on this'' h)"
  by (simp add: header_step_def)

lemma header_step_absent:
  "getpath d [''header'', ''text'', ''text''] = Inl e \<Longrightarrow> header_step d = (False, False, False)"
  by (simp add: header_step_def)

lemma header_step_one:
  "header_step d = (r, c, l) \<Longrightarrow> length (filter id [r, l, c]) \<le> 1"
  by (auto simp: header_step_def split: sum.splits if_splits)

lemma shared_step_absent:
  "getpath d [''resharedUpdate'', ''commentary'', ''text'', ''text''] = Inl e \<Longrightarrow>
     \<not> snd (shared_step d)"
  by (simp add: shared_step_def)

lemma re_search_Nil: "re_search [] = None"
  by (simp add: match_here_def urn_activity_prefix_def)

lemma activity_of_record_entity:
  assumes "activity_of_record coerce d st = Inr (a, st')"
  shows "getitem d ''entityUrn'' = Inr (JStr (entity_urn a))"
proof -
  from assms obtain ts where
    ts: "get_timestamp_from_entity_urn (get_or_empty d [''entityUrn'']) = Inr ts"
    by (auto simp: activity_of_record_def Let_def split: prod.splits option.splits sum.splits)
  then obtain s where s: "get_or_empty d [''entityUrn''] = JStr s" and "re_search s \<noteq> None"
    by (auto simp: get_timestamp_from_entity_urn_def split: json.splits option.splits)
  then have "s \<noteq> []" using re_search_Nil by auto
  with s have get: "getitem d ''entityUrn'' = Inr (JStr s)"
    by (auto simp: get_or_empty_def split: sum.splits)
  from assms s have "entity_urn a = s"
    by (auto simp: activity_of_record_def Let_def str_field_def
             split: prod.splits option.splits sum.splits dest!: new_activity_Inr(7))
  with get show ?thesis by simp
qed

text \<open>
  C2. When a record has a reshared-update commentary text and a header text that contains
  "reposted this", the Activity built from it has \<open>is_shared\<close> set and \<open>is_reposted\<close>
  clear: the header is not looked at once the record counts as shared.
\<close>

theorem reshare_dominates_header:
  assumes "elements_to_linkedin_activity coerce data = Inr acts"
    and "i < length data"
    and "getpath (data ! i) [''resharedUpdate'', ''commentary'', ''text'', ''text''] = Inr v"
    and "getpath (data ! i) [''header'', ''text'', ''text''] = Inr (JStr h)"
    and "sublist ''reposted this'' h"
  shows "i < length acts \<and> is_shared (acts ! i) \<and> \<not> is_reposted (acts ! i)"
proof -
  from elements_nth [OF assms(1,2)] obtain s s' where
    len: "i < length acts" and
    rec: "activity_of_record coerce (data ! i) s = Inr (acts ! i, s')"
    by blast
  have sh: "snd (shared_step (data ! i))"
    using assms(3) by (simp add: shared_step_def)
  from activity_of_record_flags [OF rec] sh len show ?thesis by simp
qed

theorem reshare_dominates_header_witness:
  "elements_to_linkedin_activity strict
     [JObj (base_fields @ [reshared_field ''old post'', text_field ''header'' ''Ann reposted this''])]
     = Inr [shared_activity]
   \<and> is_shared shared_activity \<and> \<not> is_reposted shared_activity"
proof -
  let ?d = "JObj (base_fields @ [reshared_field ''old post'', text_field ''header'' ''Ann reposted this''])"
  have h1: "elements_to_linkedin_activity strict [?d] = Inr [shared_activity]"
    by (simp add: eval_defs shared_activity_def)
  have h2: "0 < length [?d]" by simp
  have h3: "getpath ([?d] ! 0) [''resharedUpdate'', ''commentary'', ''text'', ''text'']
              = Inr (JStr ''old post'')"
    by (simp add: base_fields_def text_field_def reshared_field_def)
  have h4: "getpath ([?d] ! 0) [''header'', ''text'', ''text''] = Inr (JStr ''Ann reposted this'')"
    by (simp add: base_fields_def text_field_def reshared_field_def)
  have h5: "sublist ''reposted this'' ''Ann reposted this''"
    by (simp add: sublist_code)
  from reshare_dominates_header [OF h1 h2 h3 h4 h5] h1 show ?thesis by simp
qed

text \<open>
  C3. For a record without reshared-update commentary whose header text is a string, the
  Activity has \<open>is_reposted\<close> set exactly when the header contains "reposted this",
  else \<open>is_commented\<close> exactly when it contains "commented on this", else \<open>is_liked\<close>;
  when the header text is absent none of the three flags is set.
\<close>

theorem header_classification:
  assumes "elements_to_linkedin_activity coerce data = Inr acts"
    and "i < length data"
    and "getpath (data ! i) [''resharedUpdate'', ''commentary'', ''text'', ''text''] = Inl e"
  shows "(\<forall>h. getpath (data ! i) [''header'', ''text'', ''text''] = Inr (JStr h) \<longrightarrow>
            is_reposted (acts ! i) = sublist ''reposted this'' h \<and>
            is_commented (acts ! i) =
              (\<not> sublist ''reposted this'' h \<and> sublist ''commented on this'' h) \<and>
            is_liked (acts ! i) =
              (\<not> sublist ''reposted this'' h \<and> \<not> sublist ''commented on this'' h))
       \<and> ((\<exists>e'. getpath (data ! i) [''header'', ''text'', ''text''] = Inl e') \<longrightarrow>
            \<not> is_reposted (acts ! i) \<and> \<not> is_commented (acts ! i) \<and> \<not> is_liked (acts ! i))"
proof -
  from elements_nth [OF assms(1,2)] obtain s s' where
    rec: "activity_of_record coerce (data ! i) s = Inr (acts ! i, s')"
    by blast
  from activity_of_record_flags(2) [OF rec] shared_step_absent [OF assms(3)]
  have flags: "(is_reposted (acts ! i), is_commented (acts ! i), is_liked (acts ! i)) =
                 header_step (data ! i)"
    by simp
  show ?thesis
    using flags by (auto simp: header_step_str header_step_absent)
qed

theorem header_classification_witness:
  "elements_to_linkedin_activity strict
     [JObj (base_fields @ [text_field ''header'' ''Ann commented on this''])]
     = Inr [commented_activity]
   \<and> \<not> is_reposted commented_activity \<and> is_commented commented_activity
   \<and> \<not> is_liked commented_activity"
proof -
  let ?d = "JObj (base_fields @ [text_field ''header'' ''Ann commented on this''])"
  have h1: "elements_to_linkedin_activity strict [?d] = Inr [commented_activity]"
    by (simp add: eval_defs commented_activity_def)
  have h2: "0 < length [?d]" by simp
  have h3: "getpath ([?d] ! 0) [''resharedUpdate'', ''commentary'', ''text'', ''text'']
              = Inl KeyError"
    by (simp add: base_fields_def text_field_def)
  have h4: "getpath ([?d] ! 0) [''header'', ''text'', ''text'']
              = Inr (JStr ''Ann commented on this'')"
    by (simp add: base_fields_def text_field_def)
  from header_classification [OF h1 h2 h3] h4 show ?thesis
    using h1 by (simp add: sublist_code)
qed

text \<open>
  C4. In every Activity at most one of the four flags is set: exactly one when the
  reshare commentary is present or the header text is a string, none when both are absent.
\<close>

theorem flags_exclusive:
  assumes "elements_to_linkedin_activity coerce data = Inr acts"
    and "i < length data"
  shows "flag_count (acts ! i) \<le> 1
       \<and> ((\<exists>v. getpath (data ! i) [''resharedUpdate'', ''commentary'', ''text'', ''text''] = Inr v)
            \<or> (\<exists>h. getpath (data ! i) [''header'', ''text'', ''text''] = Inr (JStr h))
           \<longrightarrow> flag_count (acts ! i) = 1)
       \<and> ((\<exists>e. getpath (data ! i) [''resharedUpdate'', ''commentary'', ''text'', ''text''] = Inl e)
            \<and> (\<exists>e. getpath (data ! i) [''header'', ''text'', ''text''] = Inl e)
           \<longrightarrow> flag_count (acts ! i) = 0)"
proof -
  from elements_nth [OF assms] obtain s s' where
    rec: "activity_of_record coerce (data ! i) s = Inr (acts ! i, s')"
    by blast
  note fl = activity_of_record_flags [OF rec]
  obtain r c l where hs: "header_step (data ! i) = (r, c, l)"
    by (cases "header_step (data ! i)") auto
  have one: "flag_count (acts ! i) \<le> 1"
    using fl hs header_step_one [OF hs] by (auto simp: flag_count_def split: if_splits)
  have shared: "flag_count (acts ! i) = 1"
    if "getpath (data ! i) [''resharedUpdate'', ''commentary'', ''text'', ''text''] = Inr v" for v
    using fl that by (auto simp: flag_count_def shared_step_def)
  have header: "flag_count (acts ! i) = 1"
    if "getpath (data ! i) [''header'', ''text'', ''text''] = Inr (JStr h)" for h
    using fl header_step_str [OF that] by (auto simp: flag_count_def split: if_splits)
  have none: "flag_count (acts ! i) = 0"
    if "getpath (data ! i) [''resharedUpdate'', ''commentary'', ''text'', ''text''] = Inl e"
      and "getpath (data ! i) [''header'', ''text'', ''text''] = Inl e'" for e e'
    using fl shared_step_absent [OF that(1)] header_step_absent [OF that(2)]
    by (auto simp: flag_count_def)
  show ?thesis using one shared header none by blast
qed

theorem flags_exclusive_witness:
  "elements_to_linkedin_activity strict
     [JObj (base_fields @ [text_field ''header'' ''Ann commented on this'']), JObj base_fields]
     = Inr [commented_activity, plain_activity]
   \<and> flag_count commented_activity = 1 \<and> flag_count plain_activity = 0"
proof -
  let ?d = "JObj (base_fields @ [text_field ''header'' ''Ann commented on this''])"
  let ?data = "[?d, JObj base_fields]"
  have h1: "elements_to_linkedin_activity strict ?data = Inr [commented_activity, plain_activity]"
    by (simp add: eval_defs commented_activity_def plain_activity_def)
  have a0: "0 < length ?data" and a1: "1 < length ?data" by simp_all
  have p0: "getpath (?data ! 0) [''header'', ''text'', ''text'']
              = Inr (JStr ''Ann commented on this'')"
    by (simp add: base_fields_def text_field_def)
  have p1: "getpath (?data ! 1) [''resharedUpdate'', ''commentary'', ''text'', ''text'']
              = Inl KeyError"
           "getpath (?data ! 1) [''header'', ''text'', ''text''] = Inl KeyError"
    by (simp_all add: base_fields_def)
  from flags_exclusive [OF h1 a0] p0 have "flag_count ([commented_activity, plain_activity] ! 0) = 1"
    by blast
  moreover from flags_exclusive [OF h1 a1] p1
  have "flag_count ([commented_activity, plain_activity] ! 1) = 0"
    by blast
  ultimately show ?thesis using h1 by simp
qed

text \<open>
  C10. When the call returns, it returns one Activity per record, in the order of the
  records: the Activity at position \<open>i\<close> is the one the loop body builds from record
  \<open>i\<close>, and carries that record's entity identifier.
\<close>

theorem one_activity_per_record:
  assumes "elements_to_linkedin_activity coerce data = Inr acts"
  shows "length acts = length data
       \<and> (\<forall>i<length data.
             getitem (data ! i) ''entityUrn'' = Inr (JStr (entity_urn (acts ! i)))
           \<and> (\<exists>st st'. activity_of_record coerce (data ! i) st = Inr (acts ! i, st')))"
proof -
  from activities_loop_nth [of coerce data _ "[]" acts] assms
  have len: "length acts = length data"
    by (simp add: elements_to_linkedin_activity_def)
  moreover have "getitem (data ! i) ''entityUrn'' = Inr (JStr (entity_urn (acts ! i)))
           \<and> (\<exists>st st'. activity_of_record coerce (data ! i) st = Inr (acts ! i, st'))"
    if "i < length data" for i
    using elements_nth(2) [OF assms that] activity_of_record_entity by blast
  ultimately show ?thesis by blast
qed

theorem one_activity_per_record_witness:
  "elements_to_linkedin_activity strict
     [JObj (base_fields @ [text_field ''header'' ''Ann commented on this'']), JObj base_fields]
     = Inr [commented_activity, plain_activity]
   \<and> length [commented_activity, plain_activity] = (2::nat)
   \<and> getitem (JObj base_fields) ''entityUrn'' = Inr (JStr (entity_urn plain_activity))"
proof -
  let ?data = "[JObj (base_fields @ [text_field ''header'' ''Ann commented on this'']),
                JObj base_fields]"
  have h1: "elements_to_linkedin_activity strict ?data = Inr [commented_activity, plain_activity]"
    by (simp add: eval_defs commented_activity_def plain_activity_def)
  from one_activity_per_record [OF h1]
  have "length [commented_activity, plain_activity] = length ?data"
    and "getitem (?data ! 1) ''entityUrn''
           = Inr (JStr (entity_urn ([commented_activity, plain_activity] ! 1)))"
    by auto
  with h1 show ?thesis by simp
qed

section \<open>Properties of the identifier decoder\<close>

lemma embeds_iff:
  "embeds_activity_urn s \<longleftrightarrow> (\<exists>c. is_digit c \<and> sublist (urn_activity_prefix @ [c]) s)"
  unfolding embeds_activity_urn_def is_digit_def list_ex_iff by blast

lemma match_here_None_iff:
  "match_here s = None \<longleftrightarrow> (\<forall>c. is_digit c \<longrightarrow> \<not> prefix (urn_activity_prefix @ [c]) s)"
proof
  assume none: "match_here s = None"
  show "\<forall>c. is_digit c \<longrightarrow> \<not> prefix (urn_activity_prefix @ [c]) s"
  proof (intro allI impI notI)
    fix c assume c: "is_digit c" and "prefix (urn_activity_prefix @ [c]) s"
    then obtain t where "s = urn_activity_prefix @ c # t"
      by (auto simp: prefix_def)
    with c have "match_here s \<noteq> None"
      by (simp add: match_here_def)
    with none show False by simp
  qed
next
  assume all: "\<forall>c. is_digit c \<longrightarrow> \<not> prefix (urn_activity_prefix @ [c]) s"
  show "match_here s = None"
  proof (rule ccontr)
    assume "match_here s \<noteq> None"
    then have p: "prefix urn_activity_prefix s"
      and t: "takeWhile is_digit (drop (length urn_activity_prefix) s) \<noteq> []"
      by (auto simp: match_here_def Let_def split: if_splits)
    from p obtain r where s: "s = urn_activity_prefix @ r"
      by (auto simp: prefix_def)
    with t obtain c r' where "r = c # r'" and "is_digit c"
      by (cases r) (auto split: if_splits)
    with s all show False by (auto simp: prefix_def)
  qed
qed

lemma re_search_None_iff: "re_search s = None \<longleftrightarrow> \<not> embeds_activity_urn s"
proof (induction s)
  case Nil
  show ?case
    by (simp add: match_here_None_iff embeds_iff urn_activity_prefix_def)
next
  case (Cons a s)
  have "re_search (a # s) = None \<longleftrightarrow> match_here (a # s) = None \<and> re_search s = None"
    by (simp split: option.splits)
  also have "\<dots> \<longleftrightarrow> \<not> embeds_activity_urn (a # s)"
    unfolding Cons.IH match_here_None_iff embeds_iff sublist_Cons_right by blast
  finally show ?case .
qed

lemma re_search_match: "match_here s = Some m \<Longrightarrow> re_search s = Some m"
  by (cases s) simp_all

lemma re_search_leftmost:
  assumes "\<not> embeds_activity_urn (pre @ urn_activity_prefix)"
    and "ds \<noteq> []" and "list_all is_digit ds" and "post = [] \<or> \<not> is_digit (hd post)"
  shows "re_search (pre @ urn_activity_prefix @ ds @ post) = Some (urn_activity_prefix @ ds)"
  using assms(1)
proof (induction pre)
  case Nil
  have "takeWhile is_digit (ds @ post) = ds"
    using assms(3,4) by (cases post) (auto simp: list_all_iff)
  then have "match_here (urn_activity_prefix @ ds @ post) = Some (urn_activity_prefix @ ds)"
    using assms(2) by (simp add: match_here_def)
  then show ?case by (simp add: re_search_match)
next
  case (Cons a pre)
  have no: "\<not> embeds_activity_urn (pre @ urn_activity_prefix)"
    using Cons.prems by (auto simp: embeds_iff sublist_Cons_right)
  have "match_here (a # pre @ urn_activity_prefix @ ds @ post) = None"
    unfolding match_here_None_iff
  proof (intro allI impI notI)
    fix c assume c: "is_digit c"
      and p: "prefix (urn_activity_prefix @ [c]) (a # pre @ urn_activity_prefix @ ds @ post)"
    have "prefix (a # pre @ urn_activity_prefix) (a # pre @ urn_activity_prefix @ ds @ post)"
      by simp
    moreover have "length (urn_activity_prefix @ [c]) \<le> length (a # pre @ urn_activity_prefix)"
      by simp
    ultimately have "prefix (urn_activity_prefix @ [c]) (a # pre @ urn_activity_prefix)"
      using p prefix_length_prefix by blast
    then have "embeds_activity_urn ((a # pre) @ urn_activity_prefix)"
      using c by (auto simp: embeds_iff)
    with Cons.prems show False by simp
  qed
  then show ?case using Cons.IH [OF no] by simp
qed

lemma split_from_no_sep: "sep \<notin> set s \<Longrightarrow> split_from sep w s = [w @ s]"
  by (induction s arbitrary: w) auto
lemma split_from_ne: "split_from sep w s \<noteq> []"
  by (induction s arbitrary: w) auto
lemma last_split_from_append:
  "last (split_from sep w (a @ sep # s)) = last (split_from sep [] s)"
  by (induction a arbitrary: w) (auto simp: split_from_ne)

lemma colon_not_digit: "\<not> is_digit CHR '':''"
  by (simp add: is_digit_def)

lemma last_split_urn:
  assumes "list_all is_digit ds"
  shows "last (split_on CHR '':'' (urn_activity_prefix @ ds)) = ds"
proof -
  have n: "CHR '':'' \<notin> set ds"
    using assms colon_not_digit by (auto simp: list_all_iff)
  have eq: "urn_activity_prefix @ ds = ''urn:li:activity'' @ CHR '':'' # ds"
    by (simp add: urn_activity_prefix_def)
  have "last (split_on CHR '':'' (urn_activity_prefix @ ds))
          = last (split_from CHR '':'' [] (''urn:li:activity'' @ CHR '':'' # ds))"
    by (simp only: split_on_def eq)
  also have "\<dots> = last (split_from CHR '':'' [] ds)"
    by (rule last_split_from_append)
  also have "\<dots> = ds"
    by (simp add: split_from_no_sep [OF n])
  finally show ?thesis .
qed

lemma digits_value_snoc: "digits_value b (xs @ [c]) = b * digits_value b xs + digit_val c"
  by (simp add: digits_value_def)

lemma bin_digits_snoc:
  "2 \<le> n \<Longrightarrow> bin_digits n = bin_digits (n div 2) @ [if n mod 2 = 0 then CHR ''0'' else CHR ''1'']"
  by (subst bin_digits.simps) simp

lemma bin_digits_small: "n < 2 \<Longrightarrow> bin_digits n = [if n = 0 then CHR ''0'' else CHR ''1'']"
  by (subst bin_digits.simps) simp

lemma bin_digits_ne: "bin_digits n \<noteq> []"
  by (subst bin_digits.simps) simp

lemma bin_digits_chars: "list_all (\<lambda>c. c \<in> set ''01'') (bin_digits n)"
proof (induction n rule: bin_digits.induct)
  case (1 n)
  show ?case
  proof (cases "n < 2")
    case True
    then show ?thesis by (simp add: bin_digits_small)
  next
    case False
    with 1 show ?thesis by (simp add: bin_digits_snoc)
  qed
qed

lemma bin_digits_upper: "n < 2 ^ length (bin_digits n)"
proof (induction n rule: bin_digits.induct)
  case (1 n)
  show ?case
  proof (cases "n < 2")
    case True
    then show ?thesis by (simp add: bin_digits_small)
  next
    case False
    with 1 have "n div 2 < 2 ^ length (bin_digits (n div 2))" by simp
    then have "n < 2 * 2 ^ length (bin_digits (n div 2))" by linarith
    with False show ?thesis by (simp add: bin_digits_snoc)
  qed
qed

lemma bin_digits_lower: "0 < n \<Longrightarrow> 2 ^ (length (bin_digits n) - 1) \<le> n"
proof (induction n rule: bin_digits.induct)
  case (1 n)
  show ?case
  proof (cases "n < 2")
    case True
    with 1 show ?thesis by (simp add: bin_digits_small)
  next
    case False
    with 1 have "2 ^ (length (bin_digits (n div 2)) - 1) \<le> n div 2" by simp
    then have "2 * 2 ^ (length (bin_digits (n div 2)) - 1) \<le> n" by linarith
    moreover have "length (bin_digits (n div 2)) \<noteq> 0" by (simp add: bin_digits_ne)
    then have "(2::nat) * 2 ^ (length (bin_digits (n div 2)) - 1) = 2 ^ length (bin_digits (n div 2))"
      by (cases "length (bin_digits (n div 2))") simp_all
    ultimately show ?thesis using False by (simp add: bin_digits_snoc)
  qed
qed

lemma digit_val_bit: "digit_val (if b = 0 then CHR ''0'' else CHR ''1'') = (if b = (0::nat) then 0 else 1)"
  by (simp add: digit_val_def)

lemma leading_bits_value:
  "digits_value 2 (take k (bin_digits n)) = n div 2 ^ (length (bin_digits n) - k)"
proof (induction n arbitrary: k rule: bin_digits.induct)
  case (1 n)
  show ?case
  proof (cases "n < 2")
    case True
    then show ?thesis
      by (cases k) (auto simp: bin_digits_small digits_value_def digit_val_def)
  next
    case False
    let ?xs = "bin_digits (n div 2)"
    let ?b = "if n mod 2 = 0 then CHR ''0'' else CHR ''1''"
    have snoc: "bin_digits n = ?xs @ [?b]" using False by (simp add: bin_digits_snoc)
    show ?thesis
    proof (cases "k \<le> length ?xs")
      case True
      then have "digits_value 2 (take k (bin_digits n)) = digits_value 2 (take k ?xs)"
        by (simp add: snoc)
      also have "\<dots> = (n div 2) div 2 ^ (length ?xs - k)"
        using 1 False by simp
      also have "\<dots> = n div (2 * 2 ^ (length ?xs - k))"
        by (simp add: div_mult2_eq)
      also have "2 * 2 ^ (length ?xs - k) = (2::nat) ^ (length (bin_digits n) - k)"
        using True by (simp add: snoc Suc_diff_le)
      finally show ?thesis .
    next
      case False
      have "digits_value 2 (take (length ?xs) ?xs) = (n div 2) div 2 ^ (length ?xs - length ?xs)"
        using 1 \<open>\<not> n < 2\<close> by blast
      then have whole: "digits_value 2 ?xs = n div 2" by simp
      have "n mod 2 = 0 \<or> n mod 2 = 1" by presburger
      then have dv: "digit_val ?b = n mod 2" by (auto simp: digit_val_def)
      from False have "take k (bin_digits n) = ?xs @ [?b]" by (simp add: snoc)
      then have "digits_value 2 (take k (bin_digits n)) = 2 * (n div 2) + n mod 2"
        by (simp only: digits_value_snoc whole dv)
      moreover from False have "length (bin_digits n) - k = 0" by (simp add: snoc)
      ultimately show ?thesis by simp
    qed
  qed
qed

lemma py_int2_take_bin:
  "py_int2 (take 43 (py_bin n)) = Inr (n div 2 ^ (length (bin_digits n) - 41))"
proof -
  have t: "take 43 (py_bin n) = ''0b'' @ take 41 (bin_digits n)"
    by (simp add: py_bin_def)
  have ne: "take 41 (bin_digits n) \<noteq> []" by (simp add: bin_digits_ne)
  have ch: "list_all (\<lambda>c. c \<in> set ''01'') (take 41 (bin_digits n))"
    using bin_digits_chars [of n] by (auto simp: list_all_iff dest: in_set_takeD)
  have "py_int2 (''0b'' @ take 41 (bin_digits n)) = Inr (digits_value 2 (take 41 (bin_digits n)))"
    using ne ch by (simp add: py_int2_def)
  then show ?thesis by (simp only: t leading_bits_value)
qed

lemma leading_bits_upper: "n div 2 ^ (length (bin_digits n) - 41) < 2 ^ 41"
proof (cases "length (bin_digits n) \<le> 41")
  case True
  have "n < 2 ^ length (bin_digits n)" by (rule bin_digits_upper)
  also have "(2::nat) ^ length (bin_digits n) \<le> 2 ^ 41"
    using True by (intro power_increasing) simp_all
  finally show ?thesis using True by simp
next
  case False
  then have "41 + (length (bin_digits n) - 41) = length (bin_digits n)" by simp
  with power_add [of "2::nat" 41 "length (bin_digits n) - 41"]
  have "(2::nat) ^ length (bin_digits n) = 2 ^ 41 * 2 ^ (length (bin_digits n) - 41)"
    by simp
  with bin_digits_upper [of n] have "n < 2 ^ 41 * 2 ^ (length (bin_digits n) - 41)"
    by simp
  then show ?thesis by (rule less_mult_imp_div_less)
qed

lemma leading_bits_lower:
  assumes "2 ^ 40 \<le> n"
  shows "2 ^ 40 \<le> n div 2 ^ (length (bin_digits n) - 41)"
proof -
  from assms have pos: "0 < n"
    using less_le_trans [of 0 "2 ^ 40" n] by simp
  have "(2::nat) ^ 40 < 2 ^ length (bin_digits n)"
    using assms bin_digits_upper [of n] by linarith
  with power_less_imp_less_exp [of "2::nat" 40 "length (bin_digits n)"]
  have len: "40 < length (bin_digits n)" by simp
  then have "40 + (length (bin_digits n) - 41) = length (bin_digits n) - 1" by simp
  with power_add [of "2::nat" 40 "length (bin_digits n) - 41"]
  have "(2::nat) ^ 40 * 2 ^ (length (bin_digits n) - 41) = 2 ^ (length (bin_digits n) - 1)"
    by simp
  with bin_digits_lower [OF pos] have "2 ^ 40 * 2 ^ (length (bin_digits n) - 41) \<le> n"
    by simp
  then show ?thesis by (simp add: less_eq_div_iff_mult_less_eq)
qed

lemma leading_bits_short:
  assumes "n < 2 ^ 40"
  shows "n div 2 ^ (length (bin_digits n) - 41) = n"
proof -
  have "length (bin_digits n) \<le> 41"
  proof (cases "n = 0")
    case True
    then show ?thesis by (simp add: bin_digits_small)
  next
    case False
    then have "0 < n" by simp
    then have "2 ^ (length (bin_digits n) - 1) \<le> n" by (rule bin_digits_lower)
    with assms have "(2::nat) ^ (length (bin_digits n) - 1) < 2 ^ 40" by linarith
    with power_less_imp_less_exp [of "2::nat" "length (bin_digits n) - 1" 40]
    have "length (bin_digits n) - 1 < 40" by simp
    then show ?thesis by simp
  qed
  then show ?thesis by simp
qed

lemma fromtimestamp_utc_ms:
  assumes "ms < 2 ^ 41"
  shows "fromtimestamp_utc (of_nat ms / 1000) = Inr (of_nat ms / 1000)"
proof -
  have "(of_nat ms :: rat) < of_nat (2 ^ 41)"
    using assms by (simp only: of_nat_less_iff)
  then have "(of_nat ms :: rat) < 2199023255552" by simp
  moreover have "(0::rat) \<le> of_nat ms" by simp
  ultimately show ?thesis by (simp add: fromtimestamp_utc_def)
qed

lemma decode_first_match:
  assumes "s = pre @ urn_activity_prefix @ ds @ post"
    and "\<not> embeds_activity_urn (pre @ urn_activity_prefix)"
    and "ds \<noteq> []" and "list_all is_digit ds"
    and "post = [] \<or> \<not> is_digit (hd post)"
  shows "get_timestamp_from_entity_urn (JStr s) =
           Inr (of_nat (digits_value 10 ds div 2 ^ (length (bin_digits (digits_value 10 ds)) - 41))
                  / 1000)"
proof -
  have "re_search s = Some (urn_activity_prefix @ ds)"
    unfolding assms(1) using assms(2-5) by (rule re_search_leftmost)
  moreover have "py_int ds = Inr (digits_value 10 ds)"
    using assms(3,4) by (simp add: py_int_def)
  ultimately show ?thesis
    by (simp add: get_timestamp_from_entity_urn_def last_split_urn [OF assms(4)]
          py_int2_take_bin fromtimestamp_utc_ms [OF leading_bits_upper])
qed

lemma decode_no_match:
  "\<not> embeds_activity_urn s \<Longrightarrow> get_timestamp_from_entity_urn (JStr s) = Inl AttributeError"
  by (simp add: get_timestamp_from_entity_urn_def re_search_None_iff [symmetric])

lemma activities_loop_fails:
  "d \<in> set data \<Longrightarrow> \<forall>st. \<exists>e. activity_of_record coerce d st = Inl e \<Longrightarrow>
     \<exists>e. activities_loop coerce data st acc = Inl e"
proof (induction data arbitrary: st acc)
  case Nil
  then show ?case by simp
next
  case (Cons x data)
  show ?case
  proof (cases "activity_of_record coerce x st")
    case (Inl e)
    then show ?thesis by simp
  next
    case (Inr r)
    have "d \<noteq> x"
    proof
      assume "d = x"
      with Cons.prems(2) obtain e where "activity_of_record coerce x st = Inl e" by blast
      with Inr show False by simp
    qed
    with Cons.prems(1) have "d \<in> set data" by simp
    from Cons.IH [OF this Cons.prems(2)] Inr show ?thesis
      by (cases r) simp
  qed
qed

lemma activity_of_record_undecodable:
  assumes "get_timestamp_from_entity_urn (get_or_empty d [''entityUrn'']) = Inl err"
  shows "activity_of_record coerce d st = Inl UnboundLocalError
       \<or> activity_of_record coerce d st = Inl err"
  using assms
  by (auto simp: activity_of_record_def Let_def split: prod.splits option.splits)

text \<open>
  C5. On an identifier string that embeds no \<^verbatim>\<open>urn:li:activity:<digits>\<close>, the empty
  string included, the decoder fails with the \<^verbatim>\<open>AttributeError\<close> of \<^verbatim>\<open>None.group()\<close>
  (the malformed-identifier error), and does not recover from it. In
  \<^verbatim>\<open>elements_to_linkedin_activity\<close> a record with such an \<^verbatim>\<open>entityUrn\<close>, or with none,
  makes its iteration raise, and the whole call with it: no default stands in for the
  timestamp.
\<close>

theorem malformed_identifier_propagates:
  assumes "\<not> embeds_activity_urn s"
  shows "get_timestamp_from_entity_urn (JStr s) = Inl AttributeError
       \<and> (d \<in> set data
            \<and> (getitem d ''entityUrn'' = Inr (JStr s)
                \<or> s = [] \<and> (\<exists>e. getitem d ''entityUrn'' = Inl e))
          \<longrightarrow> (\<forall>st. activity_of_record coerce d st = Inl UnboundLocalError
                    \<or> activity_of_record coerce d st = Inl AttributeError)
              \<and> (\<exists>e. elements_to_linkedin_activity coerce data = Inl e))"
proof (intro conjI impI)
  show dec: "get_timestamp_from_entity_urn (JStr s) = Inl AttributeError"
    using assms by (rule decode_no_match)
  assume a: "d \<in> set data
            \<and> (getitem d ''entityUrn'' = Inr (JStr s)
                \<or> s = [] \<and> (\<exists>e. getitem d ''entityUrn'' = Inl e))"
  then have "get_or_empty d [''entityUrn''] = JStr s"
    by (auto simp: get_or_empty_def)
  with dec have "get_timestamp_from_entity_urn (get_or_empty d [''entityUrn'']) = Inl AttributeError"
    by simp
  then show rec: "\<forall>st. activity_of_record coerce d st = Inl UnboundLocalError
                    \<or> activity_of_record coerce d st = Inl AttributeError"
    using activity_of_record_undecodable by blast
  then have "\<forall>st. \<exists>e. activity_of_record coerce d st = Inl e" by blast
  with a show "\<exists>e. elements_to_linkedin_activity coerce data = Inl e"
    unfolding elements_to_linkedin_activity_def by (intro activities_loop_fails) simp_all
qed

theorem malformed_identifier_propagates_witness:
  "\<not> embeds_activity_urn ''''
   \<and> get_timestamp_from_entity_urn (JStr '''') = Inl AttributeError
   \<and> elements_to_linkedin_activity strict [JObj (without_key ''entityUrn'' base_fields)]
       = Inl AttributeError"
proof -
  let ?d = "JObj (without_key ''entityUrn'' base_fields)"
  have h: "\<not> embeds_activity_urn ''''"
    by (simp add: embeds_activity_urn_def urn_activity_prefix_def)
  have m: "?d \<in> set [?d] \<and> (getitem ?d ''entityUrn'' = Inr (JStr '''')
             \<or> '''' = [] \<and> (\<exists>e. getitem ?d ''entityUrn'' = Inl e))"
    by (simp add: without_key_def base_fields_def)
  have ev: "elements_to_linkedin_activity strict [?d] = Inl AttributeError"
    by (simp add: eval_defs without_key_def)
  from malformed_identifier_propagates [OF h, of ?d "[?d]" strict] m ev h
  show ?thesis by simp
qed

text \<open>
  C6. When the leftmost \<^verbatim>\<open>urn:li:activity:<digits>\<close> of the identifier has a numeric id of
  at least 41 binary digits, the decoder returns the instant \<open>ms / 1000\<close> seconds after the
  epoch, where \<open>ms\<close> is the id shifted right until 41 bits are left, that is its leading 41
  bits. The decoder is a function of the identifier alone.
\<close>

theorem decode_leading_41_bits:
  assumes "s = pre @ urn_activity_prefix @ ds @ post"
    and "\<not> embeds_activity_urn (pre @ urn_activity_prefix)"
    and "ds \<noteq> []" and "list_all is_digit ds"
    and "post = [] \<or> \<not> is_digit (hd post)"
    and "2 ^ 40 \<le> digits_value 10 ds"
  shows "\<exists>k ms. ms = digits_value 10 ds div 2 ^ k \<and> 2 ^ 40 \<le> ms \<and> ms < 2 ^ 41
           \<and> get_timestamp_from_entity_urn (JStr s) = Inr (of_nat ms / 1000)"
  using decode_first_match [OF assms(1-5)] leading_bits_lower [OF assms(6)]
    leading_bits_upper [of "digits_value 10 ds"]
  by blast

theorem decode_leading_41_bits_witness:
  "\<not> embeds_activity_urn (''urn:li:fs_updateV2:('' @ urn_activity_prefix)
   \<and> list_all is_digit ''7123456789012345678''
   \<and> (2::nat) ^ 40 \<le> digits_value 10 ''7123456789012345678''
   \<and> get_timestamp_from_entity_urn
        (JStr ''urn:li:fs_updateV2:(urn:li:activity:7123456789012345678,FEED)'')
       = Inr (1698364445927 / 1000)"
proof -
  let ?s = "''urn:li:fs_updateV2:(urn:li:activity:7123456789012345678,FEED)''"
  have h1: "?s = ''urn:li:fs_updateV2:('' @ urn_activity_prefix @ ''7123456789012345678'' @ '',FEED)''"
    by (simp add: urn_activity_prefix_def)
  have h2: "\<not> embeds_activity_urn (''urn:li:fs_updateV2:('' @ urn_activity_prefix)"
    by (simp add: embeds_activity_urn_def urn_activity_prefix_def sublist_code)
  have h3: "''7123456789012345678'' \<noteq> []" by simp
  have h4: "list_all is_digit ''7123456789012345678''" by (simp add: is_digit_def)
  have h5: "'',FEED)'' = [] \<or> \<not> is_digit (hd '',FEED)'')" by (simp add: is_digit_def)
  have h6: "(2::nat) ^ 40 \<le> digits_value 10 ''7123456789012345678''"
    by (simp add: digits_value_def digit_val_def)
  have ev: "get_timestamp_from_entity_urn (JStr ?s) = Inr (1698364445927 / 1000)"
    by (simp add: eval_defs)
  from decode_leading_41_bits [OF h1 h2 h3 h4 h5 h6] ev h2 h4 h6 show ?thesis by simp
qed

text \<open>
  C7. When the numeric id has fewer than 41 binary digits the decoder succeeds as well: the
  slice takes the digits there are, and the instant is the id itself in milliseconds, less
  than \<open>2 ^ 40\<close> milliseconds after the epoch.
\<close>

theorem decode_short_identifier:
  assumes "s = pre @ urn_activity_prefix @ ds @ post"
    and "\<not> embeds_activity_urn (pre @ urn_activity_prefix)"
    and "ds \<noteq> []" and "list_all is_digit ds"
    and "post = [] \<or> \<not> is_digit (hd post)"
    and "digits_value 10 ds < 2 ^ 40"
  shows "get_timestamp_from_entity_urn (JStr s) = Inr (of_nat (digits_value 10 ds) / 1000)
       \<and> (of_nat (digits_value 10 ds) / 1000 :: rat) < 1099511627776 / 1000"
proof -
  have "(of_nat (digits_value 10 ds) :: rat) < of_nat (2 ^ 40)"
    using assms(6) by (simp only: of_nat_less_iff)
  then have "(of_nat (digits_value 10 ds) :: rat) < 1099511627776" by simp
  then show ?thesis
    using decode_first_match [OF assms(1-5)] leading_bits_short [OF assms(6)] by simp
qed

theorem decode_short_identifier_witness:
  "\<not> embeds_activity_urn ([] @ urn_activity_prefix)
   \<and> list_all is_digit ''123''
   \<and> digits_value 10 ''123'' < 2 ^ 40
   \<and> get_timestamp_from_entity_urn (JStr ''urn:li:activity:123'') = Inr (123 / 1000)"
proof -
  have h1: "''urn:li:activity:123'' = [] @ urn_activity_prefix @ ''123'' @ []"
    by (simp add: urn_activity_prefix_def)
  have h2: "\<not> embeds_activity_urn ([] @ urn_activity_prefix)"
    by (simp add: embeds_activity_urn_def urn_activity_prefix_def sublist_code)
  have h3: "''123'' \<noteq> []" by simp
  have h4: "list_all is_digit ''123''" by (simp add: is_digit_def)
  have h5: "[] = [] \<or> \<not> is_digit (hd [])" by simp
  have h6: "digits_value 10 ''123'' < 2 ^ 40"
    by (simp add: digits_value_def digit_val_def)
  have v: "digits_value 10 ''123'' = 123"
    by (simp add: digits_value_def digit_val_def)
  from decode_short_identifier [OF h1 h2 h3 h4 h5 h6] h2 h4 h6 show ?thesis
    by (simp add: v)
qed

section \<open>Records with missing keys\<close>

lemma those_Some: "those xs = Some ys \<Longrightarrow> xs = map Some ys"
  by (induction xs arbitrary: ys) (auto split: option.splits)

lemma new_activity_fields:
  assumes "new_activity coerce [v1, v2, v3, v4, v5, v6, v7, v8, v9] aty sh rp lk cm ts = Inr a"
  shows "str_field coerce v1 = Some (actor_urn a)" "str_field coerce v2 = Some (actor_name a)"
    "str_field coerce v3 = Some (dash_entity_urn a)" "str_field coerce v4 = Some (entity_urn a)"
    "str_field coerce v5 = Some (url a)" "str_field coerce v6 = Some (caption a)"
    "str_field coerce v7 = Some (post_urn a)" "str_field coerce v8 = Some (shared_caption a)"
    "str_field coerce v9 = Some (comment a)"
  using those_Some [OF new_activity_Inr(7) [OF assms]] by simp_all

lemma activity_of_record_fields:
  assumes "activity_of_record coerce d st = Inr (a, st')"
  shows "str_field coerce (fst (actor_step d (actor_type_var st))) = Some (actor_urn a)"
    and "str_field coerce (get_or_empty d [''actor'', ''name'', ''text'']) = Some (actor_name a)"
    and "str_field coerce (get_or_empty d [''dashEntityUrn'']) = Some (dash_entity_urn a)"
    and "\<exists>u. url_step d (url_var st) = Some u \<and> str_field coerce u = Some (url a)"
    and "str_field coerce (get_or_empty d [''commentary'', ''text'', ''text'']) = Some (caption a)"
    and "str_field coerce (get_or_empty d [''updateMetadata'', ''urn'']) = Some (post_urn a)"
    and "str_field coerce (fst (shared_step d)) = Some (shared_caption a)"
    and "str_field coerce (if is_commented a then comment_step d else JStr []) = Some (comment a)"
proof -
  from assms obtain aty u ts ir ic il where
    u: "url_step d (url_var st) = Some u" and
    new: "new_activity coerce
            [fst (actor_step d (actor_type_var st)), get_or_empty d [''actor'', ''name'', ''text''],
             get_or_empty d [''dashEntityUrn''], get_or_empty d [''entityUrn''], u,
             get_or_empty d [''commentary'', ''text'', ''text''],
             get_or_empty d [''updateMetadata'', ''urn''], fst (shared_step d),
             if ic then comment_step d else JStr []]
            aty (snd (shared_step d)) ir il ic ts = Inr a"
    by (auto simp: activity_of_record_def Let_def split: prod.splits option.splits sum.splits)
  note f = new_activity_fields [OF new]
  from new_activity_Inr(4) [OF new] have ic: "is_commented a = ic" .
  show "str_field coerce (fst (actor_step d (actor_type_var st))) = Some (actor_urn a)"
    by (rule f)
  show "str_field coerce (get_or_empty d [''actor'', ''name'', ''text'']) = Some (actor_name a)"
    by (rule f)
  show "str_field coerce (get_or_empty d [''dashEntityUrn'']) = Some (dash_entity_urn a)"
    by (rule f)
  show "\<exists>u. url_step d (url_var st) = Some u \<and> str_field coerce u = Some (url a)"
    using u f(5) by blast
  show "str_field coerce (get_or_empty d [''commentary'', ''text'', ''text'']) = Some (caption a)"
    by (rule f)
  show "str_field coerce (get_or_empty d [''updateMetadata'', ''urn'']) = Some (post_urn a)"
    by (rule f)
  show "str_field coerce (fst (shared_step d)) = Some (shared_caption a)"
    by (rule f)
  show "str_field coerce (if is_commented a then comment_step d else JStr []) = Some (comment a)"
    using f(9) ic by simp
qed

lemma missing_key_steps:
  assumes "getitem d k = Inl e"
  shows "get_or_empty d (k # ks) = JStr []"
    and "k = ''actor'' \<Longrightarrow> actor_step d t = (JStr [], t)"
    and "k = ''updateMetadata'' \<Longrightarrow> url_step d u = Some (JStr [])"
    and "k = ''resharedUpdate'' \<Longrightarrow> shared_step d = (JStr [], False)"
    and "k = ''header'' \<Longrightarrow> header_step d = (False, False, False)"
    and "k = ''highlightedComments'' \<Longrightarrow> comment_step d = JStr []"
  using assms
  by (simp_all add: get_or_empty_def actor_step_def url_step_def shared_step_def header_step_def
        comment_step_def)

text \<open>
  C1, as stated, fails: a record without \<^verbatim>\<open>entityUrn\<close> makes the call raise the decoder's
  error, and a first record without \<^verbatim>\<open>actor\<close> makes it raise \<^verbatim>\<open>UnboundLocalError\<close>, as
  \<^verbatim>\<open>actor_type\<close> was never assigned.
\<close>

theorem missing_key_raises_counterexample:
  "getitem (JObj (without_key ''entityUrn'' base_fields)) ''entityUrn'' = Inl KeyError
   \<and> elements_to_linkedin_activity strict [JObj (without_key ''entityUrn'' base_fields)]
       = Inl AttributeError
   \<and> getitem (JObj (without_key ''actor'' base_fields)) ''actor'' = Inl KeyError
   \<and> elements_to_linkedin_activity strict [JObj (without_key ''actor'' base_fields)]
       = Inl UnboundLocalError"
  by (simp add: eval_defs without_key_def)

text \<open>
  C1, amended. Whenever the call returns, the Activity of a record from which a top-level
  key is missing has the fields read under that key at their defaults: the empty string for
  the texts and identifiers, false for the flags. The call does not return when
  \<^verbatim>\<open>entityUrn\<close> is missing from a record.
\<close>

theorem missing_key_defaults:
  assumes "elements_to_linkedin_activity coerce data = Inr acts"
    and "i < length data"
  shows "((\<exists>e. getitem (data ! i) ''actor'' = Inl e) \<longrightarrow>
            actor_urn (acts ! i) = [] \<and> actor_name (acts ! i) = [])
       \<and> ((\<exists>e. getitem (data ! i) ''dashEntityUrn'' = Inl e) \<longrightarrow> dash_entity_urn (acts ! i) = [])
       \<and> ((\<exists>e. getitem (data ! i) ''updateMetadata'' = Inl e) \<longrightarrow>
            url (acts ! i) = [] \<and> post_urn (acts ! i) = [])
       \<and> ((\<exists>e. getitem (data ! i) ''resharedUpdate'' = Inl e) \<longrightarrow>
            \<not> is_shared (acts ! i) \<and> shared_caption (acts ! i) = [])
       \<and> ((\<exists>e. getitem (data ! i) ''header'' = Inl e) \<longrightarrow>
            \<not> is_reposted (acts ! i) \<and> \<not> is_liked (acts ! i) \<and> \<not> is_commented (acts ! i))
       \<and> ((\<exists>e. getitem (data ! i) ''highlightedComments'' = Inl e) \<longrightarrow> comment (acts ! i) = [])
       \<and> ((\<exists>e. getitem (data ! i) ''commentary'' = Inl e) \<longrightarrow> caption (acts ! i) = [])
       \<and> (\<forall>e. getitem (data ! i) ''entityUrn'' \<noteq> Inl e)"
proof -
  from elements_nth [OF assms] obtain st st' where
    rec: "activity_of_record coerce (data ! i) st = Inr (acts ! i, st')"
    by blast
  note f = activity_of_record_fields [OF rec]
  note fl = activity_of_record_flags [OF rec]
  have e: "str_field coerce (JStr []) = Some []" by (simp add: str_field_def)
  have actor: "actor_urn (acts ! i) = [] \<and> actor_name (acts ! i) = []"
    if "getitem (data ! i) ''actor'' = Inl err" for err
    using f(1,2) missing_key_steps(1,2) [OF that] e by simp
  have dash: "dash_entity_urn (acts ! i) = []"
    if "getitem (data ! i) ''dashEntityUrn'' = Inl err" for err
    using f(3) missing_key_steps(1) [OF that] e by simp
  have meta: "url (acts ! i) = [] \<and> post_urn (acts ! i) = []"
    if "getitem (data ! i) ''updateMetadata'' = Inl err" for err
    using f(4,6) missing_key_steps(1,3) [OF that] e by auto
  have reshared: "\<not> is_shared (acts ! i) \<and> shared_caption (acts ! i) = []"
    if "getitem (data ! i) ''resharedUpdate'' = Inl err" for err
    using f(7) fl(1) missing_key_steps(4) [OF that] e by simp
  have header: "\<not> is_reposted (acts ! i) \<and> \<not> is_liked (acts ! i) \<and> \<not> is_commented (acts ! i)"
    if "getitem (data ! i) ''header'' = Inl err" for err
    using fl(2) missing_key_steps(5) [OF that] by (simp split: if_splits)
  have comment: "comment (acts ! i) = []"
    if "getitem (data ! i) ''highlightedComments'' = Inl err" for err
    using f(8) missing_key_steps(6) [OF that] e by (simp split: if_splits)
  have caption: "caption (acts ! i) = []"
    if "getitem (data ! i) ''commentary'' = Inl err" for err
    using f(5) missing_key_steps(1) [OF that] e by simp
  have entity: "getitem (data ! i) ''entityUrn'' \<noteq> Inl err" for err
    using activity_of_record_entity [OF rec] by simp
  show ?thesis
    using actor dash meta reshared header comment caption entity by blast
qed

theorem missing_key_defaults_witness:
  "elements_to_linkedin_activity strict
     [JObj base_fields, JObj [(''entityUrn'', JStr ''urn:li:activity:123'')]]
     = Inr [plain_activity, bare_activity]
   \<and> getitem (JObj [(''entityUrn'', JStr ''urn:li:activity:123'')]) ''actor'' = Inl KeyError
   \<and> getitem (JObj [(''entityUrn'', JStr ''urn:li:activity:123'')]) ''updateMetadata''
       = Inl KeyError
   \<and> actor_urn bare_activity = [] \<and> actor_name bare_activity = []
   \<and> url bare_activity = [] \<and> post_urn bare_activity = []"
proof -
  let ?d = "JObj [(''entityUrn'', JStr ''urn:li:activity:123'')]"
  let ?data = "[JObj base_fields, ?d]"
  have h1: "elements_to_linkedin_activity strict ?data = Inr [plain_activity, bare_activity]"
    by (simp add: eval_defs plain_activity_def commented_activity_def bare_activity_def)
  have h2: "1 < length ?data" by simp
  have k: "getitem (?data ! 1) ''actor'' = Inl KeyError"
    "getitem (?data ! 1) ''updateMetadata'' = Inl KeyError"
    by simp_all
  from missing_key_defaults [OF h1 h2] k
  have "actor_urn ([plain_activity, bare_activity] ! 1) = []
      \<and> actor_name ([plain_activity, bare_activity] ! 1) = []
      \<and> url ([plain_activity, bare_activity] ! 1) = []
      \<and> post_urn ([plain_activity, bare_activity] ! 1) = []"
    by blast
  with h1 k show ?thesis by simp
qed

section \<open>Properties of the feed assembler\<close>

lemma filter_err_Inr:
  "filter_err keep xs = Inr ys \<Longrightarrow> ys = filter (\<lambda>x. keep x = Inr True) xs"
  by (induction xs arbitrary: ys) (auto split: sum.splits if_splits)

lemma filter_err_total:
  "\<forall>x\<in>set xs. \<exists>b. keep x = Inr b \<Longrightarrow> \<exists>ys. filter_err keep xs = Inr ys"
  by (induction xs) (auto split: sum.splits)

lemma find_post_Some: "find_post urn ps = Inr (Some p) \<Longrightarrow> p \<in> set ps"
  by (induction ps) (auto split: sum.splits if_splits)

lemma sort_loop_subset:
  "sort_loop l_urns ps acc = Inr out \<Longrightarrow> set out \<subseteq> set acc \<union> set ps"
proof (induction l_urns arbitrary: ps acc)
  case Nil
  then show ?case by simp
next
  case (Cons urn l_urns)
  show ?case
  proof (cases "find_post urn ps")
    case (Inl e)
    with Cons.prems show ?thesis by simp
  next
    case (Inr r)
    show ?thesis
    proof (cases r)
      case None
      with Inr Cons.prems Cons.IH show ?thesis by simp
    next
      case (Some p)
      with Inr Cons.prems obtain ps' where
        f: "filter_err (not_in_field urn ''url'') ps = Inr ps'" and
        l: "sort_loop l_urns ps' (acc @ [p]) = Inr out"
        by (auto split: sum.splits)
      from filter_err_Inr [OF f] have "set ps' \<subseteq> set ps" by auto
      moreover from Inr Some have "p \<in> set ps" by (simp add: find_post_Some)
      ultimately show ?thesis using Cons.IH [OF l] by auto
    qed
  qed
qed

lemma find_post_unmatched:
  "\<forall>p\<in>set ps. \<exists>s. map_of p ''url'' = Some (JStr s) \<and> \<not> sublist urn s \<Longrightarrow>
     find_post urn ps = Inr None"
  by (induction ps) auto

lemma sort_loop_skip:
  assumes "\<forall>p\<in>set ps. \<exists>s. map_of p ''url'' = Some (JStr s) \<and> \<not> sublist urn s"
  shows "sort_loop (us @ urn # vs) ps acc = sort_loop (us @ vs) ps acc"
  using assms
proof (induction us arbitrary: ps acc)
  case Nil
  then show ?case by (simp add: find_post_unmatched)
next
  case (Cons u us)
  show ?case
  proof (cases "find_post u ps")
    case (Inl e)
    then show ?thesis by simp
  next
    case (Inr r)
    show ?thesis
    proof (cases r)
      case None
      with Inr Cons.IH [OF Cons.prems] show ?thesis by simp
    next
      case (Some p)
      show ?thesis
      proof (cases "filter_err (not_in_field u ''url'') ps")
        case (Inl e)
        with Inr Some show ?thesis by simp
      next
        case f: (Inr ps')
        from filter_err_Inr [OF f] have "set ps' \<subseteq> set ps" by auto
        with Cons.prems have "\<forall>p\<in>set ps'. \<exists>s. map_of p ''url'' = Some (JStr s) \<and> \<not> sublist urn s"
          by blast
        from Cons.IH [OF this] Inr Some f show ?thesis by simp
      qed
    qed
  qed
qed

lemma find_post_total:
  "\<forall>p\<in>set ps. \<exists>s. map_of p ''url'' = Some (JStr s) \<Longrightarrow> \<exists>r. find_post urn ps = Inr r"
  by (induction ps) auto

lemma sort_loop_total:
  "\<forall>p\<in>set ps. \<exists>s. map_of p ''url'' = Some (JStr s) \<Longrightarrow> \<exists>out. sort_loop l_urns ps acc = Inr out"
proof (induction l_urns arbitrary: ps acc)
  case Nil
  then show ?case by simp
next
  case (Cons u l_urns)
  from find_post_total [OF Cons.prems] obtain r where r: "find_post u ps = Inr r" by blast
  show ?case
  proof (cases r)
    case None
    with r Cons.IH [OF Cons.prems] show ?thesis by simp
  next
    case (Some p)
    have "\<forall>p\<in>set ps. \<exists>b. not_in_field u ''url'' p = Inr b"
      using Cons.prems by (fastforce simp: not_in_field_def dict_get_def)
    from filter_err_total [OF this] obtain ps' where
      f: "filter_err (not_in_field u ''url'') ps = Inr ps'" by blast
    from filter_err_Inr [OF f] have "set ps' \<subseteq> set ps" by auto
    with Cons.prems have "\<forall>p\<in>set ps'. \<exists>s. map_of p ''url'' = Some (JStr s)" by blast
    from Cons.IH [OF this] r Some f show ?thesis by simp
  qed
qed

lemma well_formed_old:
  assumes "well_formed_post p"
  shows "\<exists>b. not_in_field ''Promoted'' ''old'' p = Inr b"
proof -
  from assms obtain s where "map_of p ''old'' = Some (JStr s)"
    unfolding well_formed_post_def by blast
  then show ?thesis by (simp add: not_in_field_def dict_get_def)
qed

lemma well_formed_unmatched:
  assumes "well_formed_post p" and "\<not> url_contains urn p"
  shows "\<exists>s. map_of p ''url'' = Some (JStr s) \<and> \<not> sublist urn s"
proof -
  from assms(1) obtain s where s: "map_of p ''url'' = Some (JStr s)"
    unfolding well_formed_post_def by blast
  with assms(2) have "\<not> sublist urn s"
    unfolding url_contains_def by blast
  with s show ?thesis by blast
qed

text \<open>
  C8. Whatever the ordering list, a post of the list returned is one of the posts given, and
  its \<^verbatim>\<open>old\<close> field does not contain "Promoted".
\<close>

theorem promoted_never_in_output:
  assumes "get_list_posts_sorted_without_promoted l_urns l_posts = Inr out"
    and "p \<in> set out"
  shows "p \<in> set l_posts
       \<and> py_in ''Promoted'' (dict_get p ''old'') = Inr False
       \<and> (\<forall>s. map_of p ''old'' = Some (JStr s) \<longrightarrow> \<not> sublist ''Promoted'' s)"
proof -
  from assms(1) obtain ps where
    f: "filter_err (not_in_field ''Promoted'' ''old'') l_posts = Inr ps" and
    l: "sort_loop l_urns ps [] = Inr out"
    by (auto simp: get_list_posts_sorted_without_promoted_def split: sum.splits)
  from sort_loop_subset [OF l] assms(2) have "p \<in> set ps" by auto
  with filter_err_Inr [OF f] have
    p: "p \<in> set l_posts" and k: "not_in_field ''Promoted'' ''old'' p = Inr True"
    by simp_all
  from k have i: "py_in ''Promoted'' (dict_get p ''old'') = Inr False"
    by (auto simp: not_in_field_def split: sum.splits)
  then have "\<forall>s. map_of p ''old'' = Some (JStr s) \<longrightarrow> \<not> sublist ''Promoted'' s"
    by (auto simp: dict_get_def)
  with p i show ?thesis by blast
qed

theorem promoted_never_in_output_witness:
  "get_list_posts_sorted_without_promoted [''B'', ''A'']
     [[(''old'', JStr ''Promoted''), (''url'', JStr ''feed/A'')],
      [(''old'', JStr ''2d''), (''url'', JStr ''feed/B'')]]
     = Inr [[(''old'', JStr ''2d''), (''url'', JStr ''feed/B'')]]
   \<and> py_in ''Promoted'' (dict_get [(''old'', JStr ''2d''), (''url'', JStr ''feed/B'')] ''old'')
       = Inr False"
proof -
  let ?p = "[(''old'', JStr ''2d''), (''url'', JStr ''feed/B'')]"
  have h1: "get_list_posts_sorted_without_promoted [''B'', ''A'']
              [[(''old'', JStr ''Promoted''), (''url'', JStr ''feed/A'')], ?p] = Inr [?p]"
    by (simp add: get_list_posts_sorted_without_promoted_def not_in_field_def dict_get_def
          sublist_code)
  have h2: "?p \<in> set [?p]" by simp
  from promoted_never_in_output [OF h1 h2] h1 show ?thesis by simp
qed

text \<open>
  C9, as stated, fails: the scan for a URN reads \<^verbatim>\<open>post["url"]\<close> of every remaining post
  until one matches, and a post without that key raises \<^verbatim>\<open>KeyError\<close>.
\<close>

theorem unmatched_urn_raises_counterexample:
  "get_list_posts_sorted_without_promoted [''A''] [[(''old'', JStr ''1d'')]] = Inl KeyError"
  by (simp add: get_list_posts_sorted_without_promoted_def not_in_field_def dict_get_def
        sublist_code)

text \<open>
  C9, amended. A URN contained in the URL of none of the remaining posts, each of which has
  a string as URL, is skipped: the loop goes on with the same posts and the same output.
  When every post given has its age and URL and no URL contains the URN, the call returns,
  and returns the list it returns without the URN in the ordering list.
\<close>

theorem unmatched_urn_skipped:
  "((\<forall>p\<in>set remaining. \<exists>s. map_of p ''url'' = Some (JStr s) \<and> \<not> sublist urn s) \<longrightarrow>
      sort_loop (urn # l_urns) remaining acc = sort_loop l_urns remaining acc)
   \<and> ((\<forall>p\<in>set l_posts. well_formed_post p \<and> \<not> url_contains urn p) \<longrightarrow>
      (\<exists>out. get_list_posts_sorted_without_promoted (us @ urn # vs) l_posts = Inr out
           \<and> get_list_posts_sorted_without_promoted (us @ vs) l_posts = Inr out))"
proof (intro conjI impI)
  assume "\<forall>p\<in>set remaining. \<exists>s. map_of p ''url'' = Some (JStr s) \<and> \<not> sublist urn s"
  from sort_loop_skip [OF this, of "[]" l_urns acc]
  show "sort_loop (urn # l_urns) remaining acc = sort_loop l_urns remaining acc"
    by simp
next
  assume wf: "\<forall>p\<in>set l_posts. well_formed_post p \<and> \<not> url_contains urn p"
  have "\<forall>p\<in>set l_posts. \<exists>b. not_in_field ''Promoted'' ''old'' p = Inr b"
  proof
    fix p assume "p \<in> set l_posts"
    with wf have "well_formed_post p" by blast
    then show "\<exists>b. not_in_field ''Promoted'' ''old'' p = Inr b" by (rule well_formed_old)
  qed
  from filter_err_total [OF this] obtain ps where
    f: "filter_err (not_in_field ''Promoted'' ''old'') l_posts = Inr ps" by blast
  have sub: "set ps \<subseteq> set l_posts"
    unfolding filter_err_Inr [OF f] by (rule filter_is_subset)
  have u: "\<forall>p\<in>set ps. \<exists>s. map_of p ''url'' = Some (JStr s) \<and> \<not> sublist urn s"
  proof
    fix p assume "p \<in> set ps"
    with sub wf have "well_formed_post p" and "\<not> url_contains urn p" by blast+
    then show "\<exists>s. map_of p ''url'' = Some (JStr s) \<and> \<not> sublist urn s"
      by (rule well_formed_unmatched)
  qed
  then have "\<forall>p\<in>set ps. \<exists>s. map_of p ''url'' = Some (JStr s)" by blast
  from sort_loop_total [OF this] obtain out where
    out: "sort_loop (us @ vs) ps [] = Inr out" by blast
  from sort_loop_skip [OF u, of us vs "[]"] out
  have skip: "sort_loop (us @ urn # vs) ps [] = Inr out" by simp
  have "get_list_posts_sorted_without_promoted (us @ urn # vs) l_posts = Inr out"
    by (simp add: get_list_posts_sorted_without_promoted_def f skip)
  moreover have "get_list_posts_sorted_without_promoted (us @ vs) l_posts = Inr out"
    by (simp add: get_list_posts_sorted_without_promoted_def f out)
  ultimately show "\<exists>out. get_list_posts_sorted_without_promoted (us @ urn # vs) l_posts = Inr out
           \<and> get_list_posts_sorted_without_promoted (us @ vs) l_posts = Inr out"
    by blast
qed

theorem unmatched_urn_skipped_witness:
  "well_formed_post [(''old'', JStr ''2d''), (''url'', JStr ''feed/B'')]
   \<and> \<not> url_contains ''A'' [(''old'', JStr ''2d''), (''url'', JStr ''feed/B'')]
   \<and> get_list_posts_sorted_without_promoted [''A'', ''B'']
        [[(''old'', JStr ''2d''), (''url'', JStr ''feed/B'')]]
       = Inr [[(''old'', JStr ''2d''), (''url'', JStr ''feed/B'')]]
   \<and> get_list_posts_sorted_without_promoted [''B'']
        [[(''old'', JStr ''2d''), (''url'', JStr ''feed/B'')]]
       = Inr [[(''old'', JStr ''2d''), (''url'', JStr ''feed/B'')]]"
proof -
  let ?p = "[(''old'', JStr ''2d''), (''url'', JStr ''feed/B'')]"
  have w: "well_formed_post ?p" by (simp add: well_formed_post_def)
  have n: "\<not> url_contains ''A'' ?p" by (simp add: url_contains_def sublist_code)
  have h: "\<forall>p\<in>set [?p]. well_formed_post p \<and> \<not> url_contains ''A'' p"
    using w n by simp
  have ev: "get_list_posts_sorted_without_promoted [''B''] [?p] = Inr [?p]"
    by (simp add: get_list_posts_sorted_without_promoted_def not_in_field_def dict_get_def
          sublist_code)
  from unmatched_urn_skipped [of "[]" "''A''" "[]" "[]" "[?p]" "[]" "[''B'']"] h
  obtain out where
    "get_list_posts_sorted_without_promoted ([] @ ''A'' # [''B'']) [?p] = Inr out"
    "get_list_posts_sorted_without_promoted ([] @ [''B'']) [?p] = Inr out"
    by blast
  with ev w n show ?thesis by simp
qed

end
